theory Spec2Isabelle
  imports Main "HOL-Library.Sublist"
begin

section \<open>Text primitives of the host language\<close>

text \<open>
  The program is \<^verbatim>\<open>cfngen.py\<close>. Its strings are sequences of code points; the model
  uses \<^typ>\<open>string\<close> and reads a \<^typ>\<open>char\<close> as the code point of the same number, so
  it covers the texts whose code points are below 256. The character classes below are
  those of Python 3 on that range: \<^verbatim>\<open>str.isspace\<close> (which is also the class
  \<^verbatim>\<open>\s\<close> of \<^verbatim>\<open>re\<close> on \<^verbatim>\<open>str\<close> patterns) and the class
  \<^verbatim>\<open>\w\<close> (alphanumeric or underscore).
\<close>

abbreviation LF :: char where
  "LF \<equiv> CHR 0x0A"

abbreviation CR :: char where
  "CR \<equiv> CHR 0x0D"

definition is_space :: "char \<Rightarrow> bool" where
  "is_space c \<longleftrightarrow>
     (let n = (of_char c :: nat)
      in (9 \<le> n \<and> n \<le> 13) \<or> (28 \<le> n \<and> n \<le> 32) \<or> n = 133 \<or> n = 160)"

definition is_word :: "char \<Rightarrow> bool" where
  "is_word c \<longleftrightarrow>
     (let n = (of_char c :: nat)
      in (48 \<le> n \<and> n \<le> 57) \<or> (65 \<le> n \<and> n \<le> 90) \<or> n = 95 \<or> (97 \<le> n \<and> n \<le> 122)
         \<or> n = 170 \<or> n = 178 \<or> n = 179 \<or> n = 181 \<or> n = 185 \<or> n = 186
         \<or> (188 \<le> n \<and> n \<le> 190) \<or> (192 \<le> n \<and> n \<le> 214)
         \<or> (216 \<le> n \<and> n \<le> 246) \<or> (248 \<le> n \<and> n \<le> 255))"

definition lower_char :: "char \<Rightarrow> char" where
  "lower_char c =
     (let n = (of_char c :: nat)
      in if (65 \<le> n \<and> n \<le> 90) \<or> (192 \<le> n \<and> n \<le> 222 \<and> n \<noteq> 215)
         then char_of (n + 32) else c)"

definition lower :: "string \<Rightarrow> string" where
  "lower s = map lower_char s"

definition lstrip :: "string \<Rightarrow> string" where
  "lstrip s = dropWhile is_space s"

definition rstrip :: "string \<Rightarrow> string" where
  "rstrip s = rev (dropWhile is_space (rev s))"

definition strip :: "string \<Rightarrow> string" where
  "strip s = rstrip (lstrip s)"

definition lstrip_dots :: "string \<Rightarrow> string" where
  "lstrip_dots s = dropWhile (\<lambda>c. c = CHR ''.'') s"

definition endswith_nl :: "string \<Rightarrow> bool" where
  "endswith_nl s \<longleftrightarrow> s \<noteq> [] \<and> last s = LF"

text \<open>
  \<^verbatim>\<open>s.replace(old, new)\<close>: the occurrences of \<open>old\<close> are found from the left and do
  not overlap; an empty \<open>old\<close> matches before every character and at the end.
\<close>

function replace_str :: "string \<Rightarrow> string \<Rightarrow> string \<Rightarrow> string" where
  "replace_str old new [] = (if old = [] then new else [])"
| "replace_str old new (c # cs) =
     (if old = [] then new @ c # replace_str old new cs
      else if prefix old (c # cs) then new @ replace_str old new (drop (length old) (c # cs))
      else c # replace_str old new cs)"
  by pat_completeness auto
termination
  by (relation "measure (\<lambda>(old, new, s). length s)") auto

section \<open>The regular-expression engine, for the patterns the program uses\<close>

text \<open>
  The pattern of \<^verbatim>\<open>match_placeholder\<close> is a sequence of literal characters and of
  greedy repetitions of a character class (\<^verbatim>\<open>\s*\<close>, \<^verbatim>\<open>\S+\<close>,
  \<^verbatim>\<open>\w+\<close>). \<open>Many n P\<close> is the greedy repetition of the class \<open>P\<close>, at least
  \<open>n\<close> times. A backtracking engine tries the longest repetition first and gives
  characters back one at a time while the rest of the pattern fails; \<open>match_here\<close> returns
  the text each item consumed in the first attempt that succeeds.
\<close>

datatype item = Lit char | Many nat "char \<Rightarrow> bool"

fun first_some :: "'a option list \<Rightarrow> 'a option" where
  "first_some [] = None"
| "first_some (None # xs) = first_some xs"
| "first_some (Some x # xs) = Some x"

fun match_here :: "item list \<Rightarrow> string \<Rightarrow> string list option" where
  "match_here [] s = Some []"
| "match_here (Lit c # ps) s =
     (case s of
        [] \<Rightarrow> None
      | d # t \<Rightarrow> if d = c then map_option ((#) [d]) (match_here ps t) else None)"
| "match_here (Many n P # ps) s =
     first_some
       (map (\<lambda>k. map_option ((#) (take k s)) (match_here ps (drop k s)))
            (rev [n ..< Suc (length (takeWhile P s))]))"

text \<open>
  \<^verbatim>\<open>re.search\<close>: the start positions are tried from the left, the end of the text
  included. The result is the text before the match and the pieces of the match.
\<close>

fun re_search :: "item list \<Rightarrow> string \<Rightarrow> (string \<times> string list) option" where
  "re_search ps [] = map_option (Pair []) (match_here ps [])"
| "re_search ps (c # cs) =
     (case match_here ps (c # cs) of
        Some groups \<Rightarrow> Some ([], groups)
      | None \<Rightarrow> map_option (\<lambda>(pre, groups). (c # pre, groups)) (re_search ps cs))"

section \<open>The placeholder locator\<close>

definition INDENTATION_SIZE :: nat where
  "INDENTATION_SIZE = 2"

text \<open>
  \<^verbatim>\<open>pattern = r'"{{\s*(\S+)\.(\w+)\s*}}"'\<close>. Group 1 is the item of index 4 and
  group 2 the item of index 6.
\<close>

definition pattern :: "item list" where
  "pattern =
     [Lit (CHR 0x22), Lit (CHR ''{''), Lit (CHR ''{''),
      Many 0 is_space,
      Many 1 (\<lambda>c. \<not> is_space c),
      Lit (CHR ''.''),
      Many 1 is_word,
      Many 0 is_space,
      Lit (CHR ''}''), Lit (CHR ''}''), Lit (CHR 0x22)]"

record placeholder_match =
  line_truncated :: string
  file_name :: string
  indentation :: nat

definition match_placeholder :: "string \<Rightarrow> placeholder_match option" where
  "match_placeholder line =
     (case re_search pattern line of
        None \<Rightarrow> None
      | Some (pre, groups) \<Rightarrow>
          (let placeholder = concat groups;
               file_name = (groups ! 4) @ ''.'' @ (groups ! 6);
               indentation = length line - length (lstrip line) + INDENTATION_SIZE
           in Some \<lparr>line_truncated = replace_str placeholder [] line,
                    file_name = file_name,
                    indentation = indentation\<rparr>))"

section \<open>Files and paths\<close>

text \<open>
  The file system is a map from paths to the text of the file at that path; a path
  outside its domain does not exist. Directories, permissions and decoding failures are
  outside the model. \<^verbatim>\<open>open(path, "r")\<close> reads with universal newlines:
  \<^verbatim>\<open>\r\n\<close> and \<^verbatim>\<open>\r\<close> arrive as \<^verbatim>\<open>\n\<close>, and
  \<^verbatim>\<open>list(file)\<close> cuts the text after every \<^verbatim>\<open>\n\<close>.
\<close>

type_synonym fs = "string \<rightharpoonup> string"

datatype error = FileNotFoundError string | EmptyFileError string

fun universal_newlines :: "string \<Rightarrow> string" where
  "universal_newlines [] = []"
| "universal_newlines [c] = (if c = CR then [LF] else [c])"
| "universal_newlines (c # d # ds) =
     (if c = CR then (if d = LF then LF # universal_newlines ds
                      else LF # universal_newlines (d # ds))
      else c # universal_newlines (d # ds))"

fun split_lines :: "string \<Rightarrow> string list" where
  "split_lines [] = []"
| "split_lines (c # cs) =
     (if c = LF then [c] # split_lines cs
      else (case split_lines cs of [] \<Rightarrow> [[c]] | l # ls \<Rightarrow> (c # l) # ls))"

definition readlines :: "string \<Rightarrow> string list" where
  "readlines text = split_lines (universal_newlines text)"

definition read_file_content :: "fs \<Rightarrow> string \<Rightarrow> error + string list" where
  "read_file_content fs file_path =
     (case fs file_path of
        None \<Rightarrow> Inl (FileNotFoundError file_path)
      | Some text \<Rightarrow> Inr (readlines text))"

text \<open>\<^verbatim>\<open>os.path.join(a, b)\<close> and \<^verbatim>\<open>os.path.splitext(p)\<close> of \<^verbatim>\<open>posixpath\<close>.\<close>

definition path_join :: "string \<Rightarrow> string \<Rightarrow> string" where
  "path_join a b =
     (if prefix ''/'' b then b
      else if a = [] \<or> suffix ''/'' a then a @ b
      else a @ ''/'' @ b)"

definition rfind :: "char \<Rightarrow> string \<Rightarrow> int" where
  "rfind c s =
     (case filter (\<lambda>i. s ! i = c) (rev [0 ..< length s]) of
        [] \<Rightarrow> - 1
      | i # _ \<Rightarrow> int i)"

function splitext_loop :: "string \<Rightarrow> nat \<Rightarrow> nat \<Rightarrow> (string \<times> string) option" where
  "splitext_loop p dotIndex filenameIndex =
     (if filenameIndex < dotIndex
      then (if take 1 (drop filenameIndex p) \<noteq> ''.''
            then Some (take dotIndex p, drop dotIndex p)
            else splitext_loop p dotIndex (Suc filenameIndex))
      else None)"
  by pat_completeness auto
termination
  by (relation "measure (\<lambda>(p, dotIndex, filenameIndex). dotIndex - filenameIndex)") auto

definition splitext :: "string \<Rightarrow> string \<times> string" where
  "splitext p =
     (let sepIndex = rfind (CHR ''/'') p;
          dotIndex = rfind (CHR ''.'') p
      in if dotIndex > sepIndex
         then (case splitext_loop p (nat dotIndex) (nat (sepIndex + 1)) of
                 Some r \<Rightarrow> r
               | None \<Rightarrow> (p, []))
         else (p, []))"

section \<open>The placeholder expander\<close>

text \<open>
  \<^verbatim>\<open>process_placeholder(root, file_name, line_truncated, indentation)\<close>; the
  parameters are \<open>name\<close>, \<open>truncated\<close> and \<open>indent\<close> here, the source's names being
  the fields of \<^typ>\<open>placeholder_match\<close>. A raised exception is the \<open>Inl\<close> result; the
  exception's message is built from the path it carries.
\<close>

definition process_placeholder ::
  "fs \<Rightarrow> string \<Rightarrow> string \<Rightarrow> string \<Rightarrow> nat \<Rightarrow> error + string list" where
  "process_placeholder fs root name truncated indent =
     (let file_path = path_join root name
      in case read_file_content fs file_path of
           Inl e \<Rightarrow> Inl e
         | Inr file_content \<Rightarrow>
             (let file_ext = lstrip_dots (snd (splitext name))
              in if file_content = [] \<or> list_all (\<lambda>line. strip line = []) file_content
                 then Inl (EmptyFileError file_path)
                 else if length file_content = 1
                 then Inr [replace_str [LF]
                             (replace_str [LF] [] (file_content ! 0) @ [LF]) truncated]
                 else
                   (let file_content =
                          (if \<not> endswith_nl (last file_content)
                           then butlast file_content @ [last file_content @ [LF]]
                           else file_content)
                    in if lower file_ext \<in> set [''yaml'', ''yml'']
                       then
                         (let file_content =
                                (if file_content ! 0 = ''---'' @ [LF]
                                 then drop 1 file_content else file_content)
                          in Inr (truncated #
                                  map (\<lambda>line. if strip line \<noteq> []
                                              then replicate indent (CHR '' '') @ line
                                              else [LF])
                                      file_content))
                       else Inr (replace_str [LF] (''|'' @ [LF]) truncated #
                                 map (\<lambda>line. if lstrip line \<noteq> []
                                             then replicate indent (CHR '' '') @ line
                                             else [LF])
                                     file_content))))"

section \<open>The line-stream processor and the driver\<close>

fun process_lines :: "fs \<Rightarrow> string \<Rightarrow> string list \<Rightarrow> string list \<Rightarrow> error + string list" where
  "process_lines fs root processed_lines [] = Inr processed_lines"
| "process_lines fs root processed_lines (line # rest) =
     (case match_placeholder line of
        Some m \<Rightarrow>
          (case process_placeholder fs root (file_name m) (line_truncated m) (indentation m) of
             Inl e \<Rightarrow> Inl e
           | Inr out \<Rightarrow> process_lines fs root (processed_lines @ out) rest)
      | None \<Rightarrow> process_lines fs root (processed_lines @ [line]) rest)"

definition generate_processed_content :: "fs \<Rightarrow> string \<Rightarrow> string list \<Rightarrow> error + string list" where
  "generate_processed_content fs root file_content = process_lines fs root [] file_content"

text \<open>
  \<^verbatim>\<open>os.path.dirname(p)\<close> of \<^verbatim>\<open>posixpath\<close>, and
  \<^verbatim>\<open>save_yaml_template(content, target_file)\<close>. The latter first calls
  \<^verbatim>\<open>os.makedirs\<close> on the directory part of the target: for a target with no
  directory part the name is empty, \<^verbatim>\<open>os.makedirs\<close> raises
  \<^verbatim>\<open>FileNotFoundError\<close> for it, and nothing is written. Directories being outside
  the model, the call succeeds on every other name.
\<close>

definition dirname :: "string \<Rightarrow> string" where
  "dirname p =
     (let i = nat (rfind (CHR ''/'') p + 1);
          head = take i p
      in if head \<noteq> [] \<and> head \<noteq> replicate (length head) (CHR ''/'')
         then rev (dropWhile (\<lambda>c. c = CHR ''/'') (rev head))
         else head)"

definition save_yaml_template :: "string list \<Rightarrow> string \<Rightarrow> fs \<Rightarrow> error + fs" where
  "save_yaml_template content target_file fs =
     (if dirname target_file = [] then Inl (FileNotFoundError [])
      else Inr (fs(target_file \<mapsto> concat content)))"

definition SOURCE_DIR :: "string \<Rightarrow> string" where
  "SOURCE_DIR base_dir = path_join base_dir ''src''"

definition TARGET_DIR :: "string \<Rightarrow> string" where
  "TARGET_DIR base_dir = path_join base_dir ''template''"

text \<open>
  \<^verbatim>\<open>process_templates()\<close>, with the directory of the script as a parameter. The
  result is the outcome and the file system it leaves: an exception leaves the file
  system as it was when it was raised. The message printed at the end is left out.
\<close>

definition process_templates :: "string \<Rightarrow> fs \<Rightarrow> (error + unit) \<times> fs" where
  "process_templates base_dir fs =
     (let template_path = path_join (SOURCE_DIR base_dir) ''template.yaml'';
          output_path = path_join (TARGET_DIR base_dir) ''template.yaml''
      in case read_file_content fs template_path of
           Inl e \<Rightarrow> (Inl e, fs)
         | Inr yaml_content \<Rightarrow>
             (case generate_processed_content fs (SOURCE_DIR base_dir) yaml_content of
                Inl e \<Rightarrow> (Inl e, fs)
              | Inr processed_content \<Rightarrow>
                  (case save_yaml_template processed_content output_path fs of
                     Inl e \<Rightarrow> (Inl e, fs)
                   | Inr fs' \<Rightarrow> (Inr (), fs'))))"

section \<open>Notions of the statements\<close>

text \<open>
  The declarative reading of a pattern: \<open>fits ps gs\<close> holds when the pieces \<open>gs\<close>
  are, item by item, texts the items of \<open>ps\<close> accept.
\<close>

fun fits :: "item list \<Rightarrow> string list \<Rightarrow> bool" where
  "fits [] [] \<longleftrightarrow> True"
| "fits (Lit c # ps) (g # gs) \<longleftrightarrow> g = [c] \<and> fits ps gs"
| "fits (Many n P # ps) (g # gs) \<longleftrightarrow> n \<le> length g \<and> list_all P g \<and> fits ps gs"
| "fits _ _ \<longleftrightarrow> False"

text \<open>A whitespace-only line, the empty line included.\<close>

definition blank :: "string \<Rightarrow> bool" where
  "blank line \<longleftrightarrow> (\<forall>c \<in> set line. is_space c)"

text \<open>
  The shape of a placeholder, as the pattern describes it: a double quote, two opening
  braces, optional whitespace, a name without whitespace, a dot, an extension of word
  characters, optional whitespace, two closing braces, a double quote.
\<close>

definition placeholder_shaped :: "string \<Rightarrow> bool" where
  "placeholder_shaped ph \<longleftrightarrow>
     (\<exists>ws1 name ext ws2.
        ph = [CHR 0x22] @ ''{{'' @ ws1 @ name @ ''.'' @ ext @ ws2 @ ''}}'' @ [CHR 0x22]
        \<and> list_all is_space ws1
        \<and> name \<noteq> [] \<and> list_all (\<lambda>c. \<not> is_space c) name
        \<and> ext \<noteq> [] \<and> list_all is_word ext
        \<and> list_all is_space ws2)"

definition contains_placeholder :: "string \<Rightarrow> bool" where
  "contains_placeholder line \<longleftrightarrow> (\<exists>ph. placeholder_shaped ph \<and> sublist ph line)"

text \<open>
  Names for what the expander computes on the way: the extension it reads off the file
  name, the content with the newline added to a last line that lacks one, and the
  indented form of a content line.
\<close>

definition file_ext :: "string \<Rightarrow> string" where
  "file_ext name = lstrip_dots (snd (splitext name))"

definition with_final_newline :: "string list \<Rightarrow> string list" where
  "with_final_newline ls =
     (if endswith_nl (last ls) then ls else butlast ls @ [last ls @ [LF]])"

definition indent_line :: "nat \<Rightarrow> string \<Rightarrow> string" where
  "indent_line n line = (if blank line then [LF] else replicate n (CHR '' '') @ line)"

section \<open>The engine finds a match exactly where the pattern fits\<close>

lemma first_some_Some: "first_some xs = Some y \<Longrightarrow> Some y \<in> set xs"
  by (induction xs rule: first_some.induct) auto

lemma first_some_None: "first_some xs = None \<longleftrightarrow> (\<forall>x\<in>set xs. x = None)"
  by (induction xs rule: first_some.induct) auto

lemma first_some_map_Some: "first_some (map f ks) = Some y \<Longrightarrow> \<exists>k\<in>set ks. f k = Some y"
proof (induction ks)
  case Nil
  then show ?case by simp
next
  case (Cons a ks)
  then show ?case by (cases "f a") auto
qed

lemma first_some_map_complete: "k \<in> set ks \<Longrightarrow> f k \<noteq> None \<Longrightarrow> first_some (map f ks) \<noteq> None"
proof (induction ks)
  case Nil
  then show ?case by simp
next
  case (Cons a ks)
  then show ?case by (cases "f a") auto
qed

lemma takeWhile_longest: "list_all P g \<Longrightarrow> prefix g s \<Longrightarrow> length g \<le> length (takeWhile P s)"
proof (induction g arbitrary: s)
  case Nil
  then show ?case by simp
next
  case (Cons a g)
  from Cons.prems(2) obtain t where "s = a # t" "prefix g t" by (cases s) auto
  with Cons show ?case by simp
qed

lemma take_takeWhile_all: "k \<le> length (takeWhile P s) \<Longrightarrow> list_all P (take k s)"
proof (induction s arbitrary: k)
  case Nil
  then show ?case by simp
next
  case (Cons a s)
  then show ?case by (cases k) (auto split: if_splits)
qed

lemma match_here_sound:
  "match_here ps s = Some gs \<Longrightarrow> fits ps gs \<and> prefix (concat gs) s"
proof (induction ps s arbitrary: gs rule: match_here.induct)
  case (1 s)
  then show ?case by simp
next
  case (2 c ps s)
  then show ?case by (auto split: list.splits if_splits)
next
  case (3 n P ps s)
  let ?ks = "rev [n ..< Suc (length (takeWhile P s))]"
  from "3.prems" have "first_some (map (\<lambda>k. map_option ((#) (take k s)) (match_here ps (drop k s))) ?ks) = Some gs"
    by (simp only: match_here.simps)
  then have "\<exists>k\<in>set ?ks. map_option ((#) (take k s)) (match_here ps (drop k s)) = Some gs"
    by (rule first_some_map_Some)
  then obtain k where k: "k \<in> set ?ks" "map_option ((#) (take k s)) (match_here ps (drop k s)) = Some gs"
    by blast
  then obtain hs where hs: "match_here ps (drop k s) = Some hs" "gs = take k s # hs"
    by auto
  from k(1) have range: "n \<le> k" "k \<le> length (takeWhile P s)" by auto
  have le: "k \<le> length s"
    using range(2) length_takeWhile_le [of P s] by linarith
  from "3.IH" [OF k(1) hs(1)] have ih: "fits ps hs" "prefix (concat hs) (drop k s)" by auto
  have "prefix (take k s @ concat hs) (take k s @ drop k s)"
    using ih(2) by (simp only: same_prefix_prefix)
  then have "prefix (concat gs) s" by (simp add: hs(2))
  moreover have "fits (Many n P # ps) gs"
  proof -
    have "length (take k s) = k" using le by simp
    moreover have "list_all P (take k s)" using range(2) by (rule take_takeWhile_all)
    ultimately have "fits (Many n P # ps) (take k s # hs)"
      using ih(1) range(1) by (simp only: fits.simps simp_thms)
    then show ?thesis by (simp only: hs(2))
  qed
  ultimately show ?case by blast
qed

lemma match_here_complete:
  "fits ps gs \<Longrightarrow> prefix (concat gs) s \<Longrightarrow> match_here ps s \<noteq> None"
proof (induction ps s arbitrary: gs rule: match_here.induct)
  case (1 s)
  then show ?case by simp
next
  case (2 c ps s)
  from "2.prems"(1) obtain hs where gs: "gs = [c] # hs" "fits ps hs"
    by (cases gs) auto
  with "2.prems"(2) obtain t where s: "s = c # t" "prefix (concat hs) t"
    by (cases s) auto
  from "2.IH" [OF s(1) _ gs(2) s(2)] show ?case by (auto simp: s(1))
next
  case (3 n P ps s)
  from "3.prems"(1) obtain g hs where gs: "gs = g # hs" "n \<le> length g" "list_all P g" "fits ps hs"
    by (cases gs) auto
  from "3.prems"(2) have pre: "prefix (g @ concat hs) s" by (simp add: gs(1))
  then have pg: "prefix g s" by (metis append_prefixD)
  from pre obtain r where r: "s = g @ concat hs @ r" by (auto simp: prefix_def)
  let ?k = "length g"
  have k: "?k \<in> set (rev [n ..< Suc (length (takeWhile P s))])"
    using gs(2) takeWhile_longest [OF gs(3) pg] by auto
  have "prefix (concat hs) (drop ?k s)" by (simp add: r)
  from "3.IH" [OF k gs(4) this] obtain y where "match_here ps (drop ?k s) = Some y" by auto
  then have "map_option ((#) (take ?k s)) (match_here ps (drop ?k s)) \<noteq> None" by simp
  with k have "first_some (map (\<lambda>k. map_option ((#) (take k s)) (match_here ps (drop k s)))
            (rev [n ..< Suc (length (takeWhile P s))])) \<noteq> None"
    by (rule first_some_map_complete)
  then show ?case by (simp only: match_here.simps simp_thms)
qed


lemma re_search_None:
  "re_search ps s = None \<longleftrightarrow> (\<forall>i \<le> length s. match_here ps (drop i s) = None)"
proof (induction ps s rule: re_search.induct)
  case (1 ps)
  have "(\<forall>i \<le> length ([]::string). match_here ps (drop i []) = None) \<longleftrightarrow> match_here ps [] = None"
    by simp
  moreover have "re_search ps [] = None \<longleftrightarrow> match_here ps [] = None"
    by simp
  ultimately show ?case by (simp only:)
next
  case (2 ps c cs)
  show ?case
  proof (cases "match_here ps (c # cs)")
    case None
    have step: "re_search ps (c # cs) = None \<longleftrightarrow> re_search ps cs = None"
      using None by simp
    have ih: "re_search ps cs = None \<longleftrightarrow> (\<forall>i \<le> length cs. match_here ps (drop i cs) = None)"
      using "2.IH" [OF None] .
    have lr: "(\<forall>i \<le> length (c # cs). match_here ps (drop i (c # cs)) = None)
          \<longleftrightarrow> (\<forall>i \<le> length cs. match_here ps (drop i cs) = None)" (is "?L \<longleftrightarrow> ?R")
    proof
      assume l: ?L
      show ?R
      proof (intro allI impI)
        fix i assume "i \<le> length cs"
        then have "Suc i \<le> length (c # cs)" by simp
        with l have "match_here ps (drop (Suc i) (c # cs)) = None" by blast
        then show "match_here ps (drop i cs) = None" by simp
      qed
    next
      assume r: ?R
      show ?L
      proof (intro allI impI)
        fix i assume i: "i \<le> length (c # cs)"
        show "match_here ps (drop i (c # cs)) = None"
        proof (cases i)
          case 0
          with None show ?thesis by simp
        next
          case (Suc j)
          with i have "j \<le> length cs" by simp
          with r have "match_here ps (drop j cs) = None" by blast
          with Suc show ?thesis by simp
        qed
      qed
    qed
    show ?thesis by (simp only: step ih lr)
  next
    case (Some a)
    have "\<not> (\<forall>i \<le> length (c # cs). match_here ps (drop i (c # cs)) = None)"
    proof
      assume "\<forall>i \<le> length (c # cs). match_here ps (drop i (c # cs)) = None"
      then have "match_here ps (drop 0 (c # cs)) = None" by blast
      with Some show False by simp
    qed
    moreover have "re_search ps (c # cs) \<noteq> None" using Some by simp
    ultimately show ?thesis by (simp only: simp_thms)
  qed
qed

section \<open>Whitespace\<close>

lemma lstrip_empty_iff: "lstrip s = [] \<longleftrightarrow> blank s"
  by (simp add: lstrip_def blank_def dropWhile_eq_Nil_conv)

lemma strip_empty_iff: "strip s = [] \<longleftrightarrow> blank s"
proof
  assume "strip s = []"
  then have all: "\<forall>x \<in> set (dropWhile is_space s). is_space x"
    by (simp add: strip_def rstrip_def lstrip_def dropWhile_eq_Nil_conv)
  have "dropWhile is_space s = []"
  proof (rule ccontr)
    assume ne: "dropWhile is_space s \<noteq> []"
    then have "\<not> is_space (hd (dropWhile is_space s))" by (rule hd_dropWhile)
    moreover have "hd (dropWhile is_space s) \<in> set (dropWhile is_space s)"
      using ne by (rule hd_in_set)
    ultimately show False using all by blast
  qed
  then show "blank s" by (simp add: blank_def dropWhile_eq_Nil_conv)
next
  assume "blank s"
  then have d: "dropWhile is_space s = []" by (simp add: blank_def dropWhile_eq_Nil_conv)
  show "strip s = []" unfolding strip_def rstrip_def lstrip_def d by simp
qed

lemma length_lstrip: "length line - length (lstrip line) = length (takeWhile is_space line)"
proof -
  have "length (takeWhile is_space line) + length (dropWhile is_space line) = length line"
    by (metis length_append takeWhile_dropWhile_id)
  then show ?thesis by (simp add: lstrip_def)
qed

section \<open>The indent width of a match\<close>

text \<open>
  Claim C8. Whenever the locator finds a placeholder in a line, the indent width it
  returns is the number of leading whitespace characters of that line plus the constant 2.
\<close>

theorem match_placeholder_indent_width:
  "match_placeholder line = Some m \<Longrightarrow> indentation m = length (takeWhile is_space line) + 2"
proof -
  assume a: "match_placeholder line = Some m"
  then obtain pre groups where "re_search pattern line = Some (pre, groups)"
    by (cases "re_search pattern line") (auto simp: match_placeholder_def)
  with a have "indentation m = length line - length (lstrip line) + INDENTATION_SIZE"
    by (auto simp: match_placeholder_def Let_def)
  then show ?thesis by (simp only: length_lstrip INDENTATION_SIZE_def)
qed

theorem match_placeholder_indent_width_witness:
  "match_placeholder (''  key: '' @ [CHR 0x22] @ ''{{ value.txt }}'' @ [CHR 0x22, LF])
     = Some \<lparr>line_truncated = ''  key: '' @ [LF], file_name = ''value.txt'', indentation = 4\<rparr>
   \<and> indentation \<lparr>line_truncated = ''  key: '' @ [LF], file_name = ''value.txt'', indentation = 4\<rparr>
     = length (takeWhile is_space (''  key: '' @ [CHR 0x22] @ ''{{ value.txt }}'' @ [CHR 0x22, LF])) + 2"
proof -
  have h: "match_placeholder (''  key: '' @ [CHR 0x22] @ ''{{ value.txt }}'' @ [CHR 0x22, LF])
     = Some \<lparr>line_truncated = ''  key: '' @ [LF], file_name = ''value.txt'', indentation = 4\<rparr>"
    by code_simp
  show ?thesis using h match_placeholder_indent_width [OF h] by simp
qed

section \<open>The two failures of the expander\<close>

lemma process_placeholder_missing:
  "fs (path_join root name) = None \<Longrightarrow>
   process_placeholder fs root name truncated indent = Inl (FileNotFoundError (path_join root name))"
  by (simp add: process_placeholder_def read_file_content_def)

lemma process_placeholder_empty:
  "fs (path_join root name) = Some text \<Longrightarrow>
   readlines text = [] \<or> (\<forall>line \<in> set (readlines text). blank line) \<Longrightarrow>
   process_placeholder fs root name truncated indent = Inl (EmptyFileError (path_join root name))"
  by (auto simp: process_placeholder_def read_file_content_def Let_def list_all_iff strip_empty_iff)

lemma process_placeholder_content:
  "fs (path_join root name) = Some text \<Longrightarrow>
   readlines text \<noteq> [] \<Longrightarrow> \<not> (\<forall>line \<in> set (readlines text). blank line) \<Longrightarrow>
   \<exists>out. process_placeholder fs root name truncated indent = Inr out"
  by (simp add: process_placeholder_def read_file_content_def Let_def list_all_iff strip_empty_iff)

lemma path_join_relative:
  "\<not> prefix ''/'' name \<Longrightarrow> root \<noteq> [] \<Longrightarrow> \<not> suffix ''/'' root \<Longrightarrow>
   path_join root name = root @ ''/'' @ name"
  by (simp add: path_join_def)

text \<open>
  Claim C6. The expansion fails with the missing-file error exactly when the joined path
  \<open>path_join root name\<close> (the directory, a slash and the name, for a name that is not
  absolute) is not in the file system, and with the empty-file error exactly
  when the file is there and has no line, or only whitespace lines. So a file that exists
  and holds only whitespace gives the empty-file error: neither the missing-file error
  nor an expansion.
\<close>

theorem process_placeholder_errors:
  "((\<exists>p. process_placeholder fs root name truncated indent = Inl (FileNotFoundError p))
      \<longleftrightarrow> fs (path_join root name) = None)
   \<and> ((\<exists>p. process_placeholder fs root name truncated indent = Inl (EmptyFileError p))
      \<longleftrightarrow> (\<exists>text. fs (path_join root name) = Some text
                 \<and> (readlines text = [] \<or> (\<forall>line \<in> set (readlines text). blank line))))
   \<and> (\<forall>text. fs (path_join root name) = Some text \<longrightarrow>
         (\<forall>line \<in> set (readlines text). blank line) \<longrightarrow>
         process_placeholder fs root name truncated indent
           = Inl (EmptyFileError (path_join root name)))"
proof (cases "fs (path_join root name)")
  case None
  from process_placeholder_missing [of fs root name truncated indent, OF None] None show ?thesis by auto
next
  case (Some content)
  show ?thesis
  proof (cases "readlines content = [] \<or> (\<forall>line \<in> set (readlines content). blank line)")
    case True
    from process_placeholder_empty [of fs root name content truncated indent, OF Some True] Some True
    show ?thesis by auto
  next
    case False
    then obtain out where "process_placeholder fs root name truncated indent = Inr out"
      using process_placeholder_content [of fs root name content truncated indent, OF Some] by blast
    with Some False show ?thesis by auto
  qed
qed

theorem process_placeholder_errors_witness:
  "[''d/e.txt'' \<mapsto> ''  '' @ [LF] @ '' ''] (path_join ''d'' ''e.txt'') = Some (''  '' @ [LF] @ '' '')
   \<and> list_all blank (readlines (''  '' @ [LF] @ '' ''))
   \<and> process_placeholder [''d/e.txt'' \<mapsto> ''  '' @ [LF] @ '' ''] ''d'' ''e.txt'' (''k: '' @ [LF]) 2
       = Inl (EmptyFileError ''d/e.txt'')
   \<and> process_placeholder [''d/e.txt'' \<mapsto> ''  '' @ [LF] @ '' ''] ''d'' ''f.txt'' (''k: '' @ [LF]) 2
       = Inl (FileNotFoundError ''d/f.txt'')"
proof -
  let ?fs = "[''d/e.txt'' \<mapsto> ''  '' @ [LF] @ '' '']"
  have p: "path_join ''d'' ''e.txt'' = ''d/e.txt''" by (simp add: path_join_def suffix_to_prefix)
  have h1: "?fs (path_join ''d'' ''e.txt'') = Some (''  '' @ [LF] @ '' '')"
    by (simp add: p)
  have h2: "\<forall>line \<in> set (readlines (''  '' @ [LF] @ '' '')). blank line"
    by (simp add: readlines_def blank_def is_space_def)
  from process_placeholder_errors [of ?fs "''d''" "''e.txt''" "''k: '' @ [LF]" 2] h1 h2
  have "process_placeholder ?fs ''d'' ''e.txt'' (''k: '' @ [LF]) 2 = Inl (EmptyFileError ''d/e.txt'')"
    by (simp only: p)
  moreover have "process_placeholder ?fs ''d'' ''f.txt'' (''k: '' @ [LF]) 2 = Inl (FileNotFoundError ''d/f.txt'')"
    by (simp add: process_placeholder_def read_file_content_def path_join_def suffix_to_prefix)
  moreover have "list_all blank (readlines (''  '' @ [LF] @ '' ''))"
    using h2 by (simp only: list_all_iff)
  ultimately show ?thesis using h1 by blast
qed

section \<open>Lines without a placeholder\<close>

lemma fits_Nil_iff: "fits [] gs \<longleftrightarrow> gs = []"
  by (cases gs) simp_all

lemma fits_Lit_iff: "fits (Lit c # ps) gs \<longleftrightarrow> (\<exists>hs. gs = [c] # hs \<and> fits ps hs)"
  by (cases gs) auto

lemma fits_Many_iff:
  "fits (Many n P # ps) gs \<longleftrightarrow> (\<exists>g hs. gs = g # hs \<and> n \<le> length g \<and> list_all P g \<and> fits ps hs)"
  by (cases gs) auto

lemma fits_pattern_iff:
  "fits pattern gs \<longleftrightarrow>
     (\<exists>ws1 name ext ws2.
        gs = [[CHR 0x22], ''{'', ''{'', ws1, name, ''.'', ext, ws2, ''}'', ''}'', [CHR 0x22]]
        \<and> list_all is_space ws1
        \<and> name \<noteq> [] \<and> list_all (\<lambda>c. \<not> is_space c) name
        \<and> ext \<noteq> [] \<and> list_all is_word ext
        \<and> list_all is_space ws2)"
  unfolding pattern_def fits_Lit_iff fits_Many_iff fits_Nil_iff
  by (auto simp: Suc_le_eq)

lemma placeholder_shaped_iff:
  "placeholder_shaped ph \<longleftrightarrow> (\<exists>gs. fits pattern gs \<and> concat gs = ph)"
proof
  assume "placeholder_shaped ph"
  then obtain ws1 name ext ws2 where
    ph: "ph = [CHR 0x22] @ ''{{'' @ ws1 @ name @ ''.'' @ ext @ ws2 @ ''}}'' @ [CHR 0x22]"
    and ok: "list_all is_space ws1" "name \<noteq> []" "list_all (\<lambda>c. \<not> is_space c) name"
      "ext \<noteq> []" "list_all is_word ext" "list_all is_space ws2"
    unfolding placeholder_shaped_def by blast
  let ?gs = "[[CHR 0x22], ''{'', ''{'', ws1, name, ''.'', ext, ws2, ''}'', ''}'', [CHR 0x22]]"
  have "fits pattern ?gs" unfolding fits_pattern_iff using ok by blast
  moreover have "concat ?gs = ph" by (simp add: ph)
  ultimately show "\<exists>gs. fits pattern gs \<and> concat gs = ph" by blast
next
  assume "\<exists>gs. fits pattern gs \<and> concat gs = ph"
  then obtain gs where f: "fits pattern gs" and c: "concat gs = ph" by blast
  from f obtain ws1 name ext ws2 where
    gs: "gs = [[CHR 0x22], ''{'', ''{'', ws1, name, ''.'', ext, ws2, ''}'', ''}'', [CHR 0x22]]"
    and ok: "list_all is_space ws1" "name \<noteq> []" "list_all (\<lambda>c. \<not> is_space c) name"
      "ext \<noteq> []" "list_all is_word ext" "list_all is_space ws2"
    unfolding fits_pattern_iff by blast
  have "ph = [CHR 0x22] @ ''{{'' @ ws1 @ name @ ''.'' @ ext @ ws2 @ ''}}'' @ [CHR 0x22]"
    using c by (simp add: gs)
  with ok show "placeholder_shaped ph" unfolding placeholder_shaped_def by blast
qed

lemma match_here_pattern_shaped:
  assumes "match_here pattern (drop i line) = Some gs"
  shows "placeholder_shaped (concat gs) \<and> sublist (concat gs) line"
proof -
  from match_here_sound [OF assms] have f: "fits pattern gs" and p: "prefix (concat gs) (drop i line)"
    by simp_all
  from p obtain r where "drop i line = concat gs @ r" by (auto simp: prefix_def)
  then have "line = take i line @ concat gs @ r"
    by (metis append_take_drop_id)
  then have "sublist (concat gs) line" unfolding sublist_def by blast
  moreover from f have "placeholder_shaped (concat gs)"
    unfolding placeholder_shaped_iff by blast
  ultimately show ?thesis by simp
qed

lemma shaped_prefix_matches:
  assumes "placeholder_shaped ph" and "prefix ph s"
  shows "match_here pattern s \<noteq> None"
proof -
  from assms(1) obtain gs where "fits pattern gs" "concat gs = ph"
    unfolding placeholder_shaped_iff by blast
  with assms(2) show ?thesis by (simp add: match_here_complete)
qed

lemma match_placeholder_None_search:
  "match_placeholder line = None \<longleftrightarrow> re_search pattern line = None"
  by (cases "re_search pattern line") (auto simp: match_placeholder_def Let_def)

lemma match_placeholder_None_iff:
  "match_placeholder line = None \<longleftrightarrow> \<not> contains_placeholder line"
proof
  assume n: "match_placeholder line = None"
  show "\<not> contains_placeholder line"
  proof
    assume "contains_placeholder line"
    then obtain ph pre post where ph: "placeholder_shaped ph" "line = pre @ ph @ post"
      unfolding contains_placeholder_def sublist_def by blast
    then have "prefix ph (drop (length pre) line)" by simp
    with ph(1) have "match_here pattern (drop (length pre) line) \<noteq> None"
      by (rule shaped_prefix_matches)
    moreover have "length pre \<le> length line" using ph(2) by simp
    moreover from n have "\<forall>i \<le> length line. match_here pattern (drop i line) = None"
      by (simp only: match_placeholder_None_search re_search_None)
    then have "length pre \<le> length line \<longrightarrow> match_here pattern (drop (length pre) line) = None"
      by (rule spec)
    ultimately show False by (simp only: simp_thms)
  qed
next
  assume c: "\<not> contains_placeholder line"
  have "match_here pattern (drop i line) = None" for i
  proof (cases "match_here pattern (drop i line)")
    case None
    then show ?thesis .
  next
    case (Some gs)
    from match_here_pattern_shaped [OF Some] c show ?thesis
      unfolding contains_placeholder_def by blast
  qed
  then have "re_search pattern line = None"
    by (simp only: re_search_None simp_thms)
  then show "match_placeholder line = None"
    by (simp only: match_placeholder_None_search)
qed

lemma process_lines_no_match:
  "\<forall>line \<in> set ls. match_placeholder line = None \<Longrightarrow>
   process_lines fs root acc ls = Inr (acc @ ls)"
  by (induction ls arbitrary: acc) simp_all

text \<open>
  Claim C5. A line in which no substring has the shape of a placeholder is appended to
  the output as it is, and a template none of whose lines contains such a substring is
  returned unchanged, line for line.
\<close>

theorem no_placeholder_identity:
  "(\<not> contains_placeholder line \<longrightarrow>
      process_lines fs root processed_lines (line # rest)
        = process_lines fs root (processed_lines @ [line]) rest)
   \<and> ((\<forall>line \<in> set file_content. \<not> contains_placeholder line) \<longrightarrow>
      generate_processed_content fs root file_content = Inr file_content)"
proof (intro conjI impI)
  assume "\<not> contains_placeholder line"
  then have "match_placeholder line = None" by (simp add: match_placeholder_None_iff)
  then show "process_lines fs root processed_lines (line # rest)
        = process_lines fs root (processed_lines @ [line]) rest" by simp
next
  assume "\<forall>line \<in> set file_content. \<not> contains_placeholder line"
  then have "\<forall>line \<in> set file_content. match_placeholder line = None"
    by (simp add: match_placeholder_None_iff)
  from process_lines_no_match [OF this, of fs root "[]"]
  show "generate_processed_content fs root file_content = Inr file_content"
    by (simp add: generate_processed_content_def)
qed

theorem no_placeholder_identity_witness:
  "\<not> contains_placeholder (''a: {{ x.txt }}'' @ [LF])
   \<and> \<not> contains_placeholder ''b: 1''
   \<and> generate_processed_content Map.empty ''d'' [''a: {{ x.txt }}'' @ [LF], ''b: 1'']
       = Inr [''a: {{ x.txt }}'' @ [LF], ''b: 1'']"
proof -
  have m1: "match_placeholder (''a: {{ x.txt }}'' @ [LF]) = None" by code_simp
  have m2: "match_placeholder ''b: 1'' = None" by code_simp
  have h1: "\<not> contains_placeholder (''a: {{ x.txt }}'' @ [LF])"
    using m1 match_placeholder_None_iff by blast
  have h2: "\<not> contains_placeholder ''b: 1''"
    using m2 match_placeholder_None_iff by blast
  have "\<forall>line \<in> set [''a: {{ x.txt }}'' @ [LF], ''b: 1'']. \<not> contains_placeholder line"
    using h1 h2 by simp
  with no_placeholder_identity [of "''b: 1''" Map.empty "''d''" "[]" "[]" "[''a: {{ x.txt }}'' @ [LF], ''b: 1'']"]
  have "generate_processed_content Map.empty ''d'' [''a: {{ x.txt }}'' @ [LF], ''b: 1'']
       = Inr [''a: {{ x.txt }}'' @ [LF], ''b: 1'']" by blast
  with h1 h2 show ?thesis by blast
qed

section \<open>A failed expansion stops the template\<close>



text \<open>
  The write: a target without a directory part is refused, and the target of
  \<open>process_templates\<close> has one, so that a run whose lines are all processed writes the
  concatenation of the processed lines.
\<close>

lemma rfind_nonneg_iff: "0 \<le> rfind c s \<longleftrightarrow> c \<in> set s"
proof
  assume "c \<in> set s"
  then obtain i where "i < length s" "s ! i = c" by (auto simp: in_set_conv_nth)
  then have "i \<in> set (filter (\<lambda>i. s ! i = c) (rev [0 ..< length s]))" by simp
  then have "filter (\<lambda>i. s ! i = c) (rev [0 ..< length s]) \<noteq> []" by (metis empty_iff list.set(1))
  then show "0 \<le> rfind c s" by (simp add: rfind_def split: list.splits)
next
  assume a: "0 \<le> rfind c s"
  show "c \<in> set s"
  proof (cases "filter (\<lambda>i. s ! i = c) (rev [0 ..< length s])")
    case Nil
    with a show ?thesis by (simp add: rfind_def)
  next
    case (Cons i js)
    then have "i \<in> set (filter (\<lambda>i. s ! i = c) (rev [0 ..< length s]))" by simp
    then have "i < length s" "s ! i = c" by simp_all
    then show ?thesis by auto
  qed
qed

lemma dirname_nonempty:
  assumes "CHR ''/'' \<in> set p"
  shows "dirname p \<noteq> []"
proof -
  let ?head = "take (nat (rfind (CHR ''/'') p + 1)) p"
  from assms have "0 \<le> rfind (CHR ''/'') p" by (simp only: rfind_nonneg_iff)
  moreover from assms have "p \<noteq> []" by auto
  ultimately have ne: "?head \<noteq> []" by simp
  show ?thesis
  proof (cases "?head \<noteq> replicate (length ?head) (CHR ''/'')")
    case True
    have "\<not> (\<forall>x \<in> set ?head. x = CHR ''/'')"
    proof
      assume "\<forall>x \<in> set ?head. x = CHR ''/''"
      then have "replicate (length ?head) (CHR ''/'') = ?head"
        by (rule replicate_length_same)
      with True show False by (simp only: simp_thms)
    qed
    then have "dropWhile (\<lambda>c. c = CHR ''/'') (rev ?head) \<noteq> []"
      by (simp add: dropWhile_eq_Nil_conv)
    with ne True show ?thesis by (simp add: dirname_def Let_def)
  next
    case False
    with ne show ?thesis by (simp add: dirname_def Let_def)
  qed
qed

lemma output_path_has_directory:
  "CHR ''/'' \<in> set (path_join (TARGET_DIR base_dir) ''template.yaml'')"
proof -
  have ne: "TARGET_DIR base_dir \<noteq> []"
    by (simp add: TARGET_DIR_def path_join_def)
  show ?thesis
  proof (cases "suffix ''/'' (TARGET_DIR base_dir)")
    case True
    then have "CHR ''/'' \<in> set (TARGET_DIR base_dir)" by (auto simp: suffix_def)
    with True ne show ?thesis by (simp add: path_join_def)
  next
    case False
    with ne show ?thesis by (simp add: path_join_def)
  qed
qed

lemma process_templates_success:
  assumes "fs (path_join (SOURCE_DIR base_dir) ''template.yaml'') = Some content"
    and "generate_processed_content fs (SOURCE_DIR base_dir) (readlines content) = Inr out"
  shows "process_templates base_dir fs =
           (Inr (), fs(path_join (TARGET_DIR base_dir) ''template.yaml'' \<mapsto> concat out))"
proof -
  have "dirname (path_join (TARGET_DIR base_dir) ''template.yaml'') \<noteq> []"
    using output_path_has_directory by (rule dirname_nonempty)
  with assms show ?thesis
    by (simp add: process_templates_def read_file_content_def save_yaml_template_def)
qed

lemma save_yaml_template_no_directory:
  "CHR ''/'' \<notin> set target_file \<Longrightarrow>
   save_yaml_template content target_file fs = Inl (FileNotFoundError [])"
proof -
  assume "CHR ''/'' \<notin> set target_file"
  then have "\<not> 0 \<le> rfind (CHR ''/'') target_file" by (simp add: rfind_nonneg_iff)
  then have "nat (rfind (CHR ''/'') target_file + 1) = 0" by simp
  then have "dirname target_file = []" by (simp add: dirname_def)
  then show ?thesis by (simp add: save_yaml_template_def)
qed

lemma process_templates_error_keeps_fs:
  "process_templates base_dir fs = (Inl e, fs') \<Longrightarrow> fs' = fs"
  by (auto simp: process_templates_def Let_def split: sum.splits)



section \<open>The lines of a file\<close>

text \<open>
  What \<^verbatim>\<open>list(file)\<close> returns: no line is empty, a newline is the last character of a
  line or not in it, and every line but the last ends with one.
\<close>

lemma split_lines_line: "l \<in> set (split_lines t) \<Longrightarrow> l \<noteq> [] \<and> LF \<notin> set (butlast l)"
proof (induction t arbitrary: l)
  case Nil
  then show ?case by simp
next
  case (Cons c cs)
  show ?case
  proof (cases "c = LF")
    case True
    with Cons.prems have "l = [LF] \<or> l \<in> set (split_lines cs)" by simp
    with Cons.IH show ?thesis by auto
  next
    case False
    show ?thesis
    proof (cases "split_lines cs")
      case Nil
      with False Cons.prems show ?thesis by simp
    next
      case (Cons l0 ls)
      with False Cons.prems have "l = c # l0 \<or> l \<in> set ls" by simp
      then show ?thesis
      proof
        assume l: "l = c # l0"
        have "l0 \<in> set (split_lines cs)" using Cons by simp
        from Cons.IH [OF this] have "l0 \<noteq> []" "LF \<notin> set (butlast l0)" by simp_all
        with l False show ?thesis by simp
      next
        assume "l \<in> set ls"
        then have "l \<in> set (split_lines cs)" using Cons by simp
        from Cons.IH [OF this] show ?thesis .
      qed
    qed
  qed
qed

lemma split_lines_init_nl: "l \<in> set (butlast (split_lines t)) \<Longrightarrow> endswith_nl l"
proof (induction t arbitrary: l)
  case Nil
  then show ?case by simp
next
  case (Cons c cs)
  show ?case
  proof (cases "c = LF")
    case True
    with Cons.prems have "l = [LF] \<or> l \<in> set (butlast (split_lines cs))"
      by (auto split: if_splits)
    with Cons.IH show ?thesis by (auto simp: endswith_nl_def)
  next
    case False
    show ?thesis
    proof (cases "split_lines cs")
      case Nil
      with False Cons.prems show ?thesis by simp
    next
      case (Cons l0 ls)
      with False Cons.prems have ne: "ls \<noteq> []" and "l = c # l0 \<or> l \<in> set (butlast ls)"
        by (auto split: if_splits)
      from this(2) show ?thesis
      proof
        assume l: "l = c # l0"
        have "l0 \<in> set (butlast (split_lines cs))" using Cons ne by simp
        from Cons.IH [OF this] have "endswith_nl l0" .
        with l show ?thesis by (simp add: endswith_nl_def)
      next
        assume "l \<in> set (butlast ls)"
        then have "l \<in> set (butlast (split_lines cs))" using Cons ne by simp
        from Cons.IH [OF this] show ?thesis .
      qed
    qed
  qed
qed

lemma readlines_line: "l \<in> set (readlines content) \<Longrightarrow> l \<noteq> [] \<and> LF \<notin> set (butlast l)"
  unfolding readlines_def by (rule split_lines_line)

lemma readlines_init_nl: "l \<in> set (butlast (readlines content)) \<Longrightarrow> endswith_nl l"
  unfolding readlines_def by (rule split_lines_init_nl)

lemma set_butlast_last: "xs \<noteq> [] \<Longrightarrow> set xs = insert (last xs) (set (butlast xs))"
  by (induction xs) auto

lemma with_final_newline_all:
  assumes "ls \<noteq> []" and "\<forall>l \<in> set (butlast ls). endswith_nl l"
  shows "list_all endswith_nl (with_final_newline ls)"
proof (cases "endswith_nl (last ls)")
  case True
  have "set ls = insert (last ls) (set (butlast ls))" using assms(1) by (rule set_butlast_last)
  with True assms(2) have "\<forall>l \<in> set ls. endswith_nl l" by simp
  with True show ?thesis by (simp add: with_final_newline_def list_all_iff)
next
  case False
  have "endswith_nl (last ls @ [LF])" by (simp add: endswith_nl_def)
  with False assms(2) show ?thesis by (simp add: with_final_newline_def list_all_iff)
qed

lemma with_final_newline_length: "ls \<noteq> [] \<Longrightarrow> length (with_final_newline ls) = length ls"
  by (simp add: with_final_newline_def)

lemma with_final_newline_hd:
  "1 < length ls \<Longrightarrow> with_final_newline ls ! 0 = hd ls"
proof -
  assume a: "1 < length ls"
  then obtain x y zs where ls: "ls = x # y # zs"
    by (cases ls; cases "tl ls") auto
  show ?thesis by (simp add: ls with_final_newline_def)
qed

lemma indent_line_nl: "endswith_nl l \<Longrightarrow> endswith_nl (indent_line n l)"
  by (simp add: indent_line_def endswith_nl_def)

section \<open>Replacing the newline of a line\<close>

lemma replace_char_Cons:
  "replace_str [c] new (x # xs) =
     (if x = c then new @ replace_str [c] new xs else x # replace_str [c] new xs)"
  by simp

lemma replace_char_absent: "c \<notin> set s \<Longrightarrow> replace_str [c] new s = s"
  by (induction s) (simp_all only: replace_char_Cons replace_str.simps list.set, auto)

lemma replace_char_at_end: "c \<notin> set s \<Longrightarrow> replace_str [c] new (s @ [c]) = s @ new"
  by (induction s) (simp_all only: replace_char_Cons replace_str.simps append.simps list.set, auto)

lemma replace_final_newline:
  assumes "LF \<notin> set (butlast r)"
  shows "replace_str [LF] new r = (if endswith_nl r then butlast r @ new else r)"
proof (cases "endswith_nl r")
  case True
  then have "r \<noteq> []" "last r = LF" by (simp_all add: endswith_nl_def)
  then have r: "butlast r @ [LF] = r" using append_butlast_last_id [of r] by simp
  have "replace_str [LF] new (butlast r @ [LF]) = butlast r @ new"
    using assms by (rule replace_char_at_end)
  then have "replace_str [LF] new r = butlast r @ new" by (simp only: r)
  with True show ?thesis by simp
next
  case False
  have "LF \<notin> set r"
  proof (cases "r = []")
    case True
    then show ?thesis by simp
  next
    case ne: False
    then have "set r = insert (last r) (set (butlast r))" by (rule set_butlast_last)
    moreover have "last r \<noteq> LF" using False ne by (simp add: endswith_nl_def)
    ultimately show ?thesis using assms by simp
  qed
  then have "replace_str [LF] new r = r" by (rule replace_char_absent)
  with False show ?thesis by simp
qed

section \<open>What the expander returns\<close>

lemma strip_fmt: "(\<lambda>line. if strip line \<noteq> [] then replicate n (CHR '' '') @ line else [LF]) = indent_line n"
  by (rule ext) (simp add: indent_line_def strip_empty_iff)

lemma lstrip_fmt: "(\<lambda>line. if lstrip line \<noteq> [] then replicate n (CHR '' '') @ line else [LF]) = indent_line n"
  by (rule ext) (simp add: indent_line_def lstrip_empty_iff)

lemma all_strip_blank: "list_all (\<lambda>line. strip line = []) ls = list_all blank ls"
  by (simp add: strip_empty_iff)

lemma repaired_content:
  "(if \<not> endswith_nl (last ls) then butlast ls @ [last ls @ [LF]] else ls) = with_final_newline ls"
  by (simp add: with_final_newline_def)

lemma process_placeholder_single:
  assumes "fs (path_join root name) = Some content"
    and "readlines content = [l]"
    and "\<not> blank l"
  shows "process_placeholder fs root name truncated indent
           = Inr [replace_str [LF] (replace_str [LF] [] l @ [LF]) truncated]"
  using assms
  by (simp add: process_placeholder_def read_file_content_def Let_def all_strip_blank)

lemma process_placeholder_multi:
  assumes "fs (path_join root name) = Some content"
    and "1 < length (readlines content)"
    and "\<not> list_all blank (readlines content)"
  shows "process_placeholder fs root name truncated indent =
     (if lower (file_ext name) \<in> {''yaml'', ''yml''}
      then Inr (truncated #
                map (indent_line indent)
                  (if hd (readlines content) = ''---'' @ [LF]
                   then tl (with_final_newline (readlines content))
                   else with_final_newline (readlines content)))
      else Inr (replace_str [LF] (''|'' @ [LF]) truncated #
                map (indent_line indent) (with_final_newline (readlines content))))"
proof -
  let ?ls = "readlines content"
  have ne: "?ls \<noteq> []" using assms(2) by auto
  have len: "length ?ls \<noteq> 1" using assms(2) by simp
  have hd0: "with_final_newline ?ls ! 0 = hd ?ls" using assms(2) by (rule with_final_newline_hd)
  have r: "read_file_content fs (path_join root name) = Inr ?ls"
    using assms(1) by (simp add: read_file_content_def)
  show ?thesis
    unfolding process_placeholder_def Let_def r sum.case all_strip_blank repaired_content
      strip_fmt lstrip_fmt hd0 file_ext_def [symmetric]
    using ne len assms(3) by (simp add: drop_Suc)
qed


lemma indented_content_nl:
  assumes "1 < length (readlines content)"
  shows "list_all endswith_nl (map (indent_line n) (with_final_newline (readlines content)))"
    and "list_all endswith_nl (map (indent_line n) (tl (with_final_newline (readlines content))))"
proof -
  let ?ls = "readlines content"
  have ne: "?ls \<noteq> []" using assms by auto
  have "\<forall>l \<in> set (butlast ?ls). endswith_nl l" using readlines_init_nl by blast
  with ne have "list_all endswith_nl (with_final_newline ?ls)" by (rule with_final_newline_all)
  then have all: "\<forall>l \<in> set (with_final_newline ?ls). endswith_nl l" by (simp only: list_all_iff)
  then show "list_all endswith_nl (map (indent_line n) (with_final_newline ?ls))"
    by (simp add: list_all_iff indent_line_nl)
  have "set (tl (with_final_newline ?ls)) \<subseteq> set (with_final_newline ?ls)"
    by (cases "with_final_newline ?ls") auto
  with all have "\<forall>l \<in> set (tl (with_final_newline ?ls)). endswith_nl l" by blast
  then show "list_all endswith_nl (map (indent_line n) (tl (with_final_newline ?ls)))"
    by (simp add: list_all_iff indent_line_nl)
qed

text \<open>
  Claim C3. For a referenced file of more than one line whose extension, lower-cased, is
  neither \<open>yaml\<close> nor \<open>yml\<close>, and a remainder that holds a newline at its end at most
  (as the remainder of a template line does), the expander returns first the remainder
  with its final newline replaced by a bar and a newline, then every content line behind
  \<open>indent\<close> spaces, a whitespace-only line becoming a bare newline; the content is the
  file's lines with a newline added to the last one when it lacks it, so every line
  returned for the content ends with a newline.
\<close>

theorem multiline_plain_expansion:
  assumes "fs (path_join root name) = Some content"
    and "1 < length (readlines content)"
    and "\<not> list_all blank (readlines content)"
    and "lower (file_ext name) \<notin> {''yaml'', ''yml''}"
    and "LF \<notin> set (butlast truncated)"
  shows "process_placeholder fs root name truncated indent =
           Inr ((if endswith_nl truncated then butlast truncated @ ''|'' @ [LF] else truncated) #
                map (\<lambda>line. if blank line then [LF] else replicate indent (CHR '' '') @ line)
                  (with_final_newline (readlines content)))
         \<and> with_final_newline (readlines content) =
             butlast (readlines content) @
               [if endswith_nl (last (readlines content)) then last (readlines content)
                else last (readlines content) @ [LF]]
         \<and> list_all endswith_nl
             (map (\<lambda>line. if blank line then [LF] else replicate indent (CHR '' '') @ line)
                (with_final_newline (readlines content)))"
proof -
  let ?ls = "readlines content"
  have fmt: "(\<lambda>line. if blank line then [LF] else replicate indent (CHR '' '') @ line) = indent_line indent"
    by (rule ext) (simp add: indent_line_def)
  have ne: "?ls \<noteq> []" using assms(2) by auto
  have "process_placeholder fs root name truncated indent =
          Inr (replace_str [LF] (''|'' @ [LF]) truncated #
               map (indent_line indent) (with_final_newline ?ls))"
    using process_placeholder_multi [of fs root name content truncated indent, OF assms(1,2,3)] assms(4) by simp
  moreover have "replace_str [LF] (''|'' @ [LF]) truncated =
      (if endswith_nl truncated then butlast truncated @ ''|'' @ [LF] else truncated)"
    using assms(5) by (rule replace_final_newline)
  moreover have "with_final_newline ?ls =
      butlast ?ls @ [if endswith_nl (last ?ls) then last ?ls else last ?ls @ [LF]]"
    using ne by (simp add: with_final_newline_def)
  moreover note indented_content_nl(1) [OF assms(2), of indent]
  ultimately show ?thesis unfolding fmt by simp
qed

theorem multiline_plain_expansion_witness:
  "[''d/v.txt'' \<mapsto> ''a'' @ [LF] @ '' '' @ [LF] @ ''b''] (path_join ''d'' ''v.txt'')
      = Some (''a'' @ [LF] @ '' '' @ [LF] @ ''b'')
   \<and> 1 < length (readlines (''a'' @ [LF] @ '' '' @ [LF] @ ''b''))
   \<and> \<not> list_all blank (readlines (''a'' @ [LF] @ '' '' @ [LF] @ ''b''))
   \<and> lower (file_ext ''v.txt'') \<notin> {''yaml'', ''yml''}
   \<and> LF \<notin> set (butlast (''k: '' @ [LF]))
   \<and> process_placeholder [''d/v.txt'' \<mapsto> ''a'' @ [LF] @ '' '' @ [LF] @ ''b'']
         ''d'' ''v.txt'' (''k: '' @ [LF]) 4
       = Inr [''k: |'' @ [LF], ''    a'' @ [LF], [LF], ''    b'' @ [LF]]"
proof -
  let ?content = "''a'' @ [LF] @ '' '' @ [LF] @ ''b''"
  let ?fs = "[''d/v.txt'' \<mapsto> ?content]"
  have rl: "readlines ?content = [''a'' @ [LF], '' '' @ [LF], ''b'']"
    by (simp add: readlines_def)
  have h1: "?fs (path_join ''d'' ''v.txt'') = Some ?content"
    by (simp add: path_join_def suffix_to_prefix)
  have h2: "1 < length (readlines ?content)" using rl by simp
  have h3: "\<not> list_all blank (readlines ?content)"
    using rl by (simp add: blank_def is_space_def)
  have ext: "lower (file_ext ''v.txt'') = ''txt''" by code_simp
  have h4: "lower (file_ext ''v.txt'') \<notin> {''yaml'', ''yml''}" by (simp add: ext)
  have h5: "LF \<notin> set (butlast (''k: '' @ [LF]))" by simp
  from multiline_plain_expansion [of ?fs "''d''" "''v.txt''" ?content "''k: '' @ [LF]" 4, OF h1 h2 h3 h4 h5]
  have "process_placeholder ?fs ''d'' ''v.txt'' (''k: '' @ [LF]) 4 =
           Inr ((if endswith_nl (''k: '' @ [LF]) then butlast (''k: '' @ [LF]) @ ''|'' @ [LF]
                 else ''k: '' @ [LF]) #
                map (\<lambda>line. if blank line then [LF] else replicate 4 (CHR '' '') @ line)
                  (with_final_newline (readlines ?content)))"
    by (rule conjunct1)
  then have "process_placeholder ?fs ''d'' ''v.txt'' (''k: '' @ [LF]) 4
       = Inr [''k: |'' @ [LF], ''    a'' @ [LF], [LF], ''    b'' @ [LF]]"
    using rl by (simp add: with_final_newline_def endswith_nl_def blank_def is_space_def
        numeral_eq_Suc)
  with h1 h2 h3 h4 h5 show ?thesis by blast
qed

text \<open>
  Claim C4. For a referenced file of more than one line whose extension, lower-cased, is
  \<open>yaml\<close> or \<open>yml\<close>, the expander returns the remainder as it is, with no bar, then
  the content lines behind \<open>indent\<close> spaces, whitespace-only lines as bare newlines; the
  first line of the file is left out exactly when it is the three dashes followed by the
  newline.
\<close>

theorem multiline_yaml_expansion:
  assumes "fs (path_join root name) = Some content"
    and "1 < length (readlines content)"
    and "\<not> list_all blank (readlines content)"
    and "lower (file_ext name) \<in> {''yaml'', ''yml''}"
  shows "process_placeholder fs root name truncated indent =
           Inr (truncated #
                map (\<lambda>line. if blank line then [LF] else replicate indent (CHR '' '') @ line)
                  (if hd (readlines content) = ''---'' @ [LF]
                   then tl (with_final_newline (readlines content))
                   else with_final_newline (readlines content)))"
proof -
  have fmt: "(\<lambda>line. if blank line then [LF] else replicate indent (CHR '' '') @ line) = indent_line indent"
    by (rule ext) (simp add: indent_line_def)
  show ?thesis
    unfolding fmt
    using process_placeholder_multi [of fs root name content truncated indent, OF assms(1,2,3)] assms(4) by simp
qed

theorem multiline_yaml_expansion_witness:
  "[''d/s.YML'' \<mapsto> ''---'' @ [LF] @ ''foo: bar'' @ [LF] @ ''baz: 1'' @ [LF]] (path_join ''d'' ''s.YML'')
      = Some (''---'' @ [LF] @ ''foo: bar'' @ [LF] @ ''baz: 1'' @ [LF])
   \<and> 1 < length (readlines (''---'' @ [LF] @ ''foo: bar'' @ [LF] @ ''baz: 1'' @ [LF]))
   \<and> \<not> list_all blank (readlines (''---'' @ [LF] @ ''foo: bar'' @ [LF] @ ''baz: 1'' @ [LF]))
   \<and> lower (file_ext ''s.YML'') \<in> {''yaml'', ''yml''}
   \<and> process_placeholder
         [''d/s.YML'' \<mapsto> ''---'' @ [LF] @ ''foo: bar'' @ [LF] @ ''baz: 1'' @ [LF]]
         ''d'' ''s.YML'' (''spec:'' @ [LF]) 2
       = Inr [''spec:'' @ [LF], ''  foo: bar'' @ [LF], ''  baz: 1'' @ [LF]]"
proof -
  let ?content = "''---'' @ [LF] @ ''foo: bar'' @ [LF] @ ''baz: 1'' @ [LF]"
  let ?fs = "[''d/s.YML'' \<mapsto> ?content]"
  have rl: "readlines ?content = [''---'' @ [LF], ''foo: bar'' @ [LF], ''baz: 1'' @ [LF]]"
    by (simp add: readlines_def)
  have h1: "?fs (path_join ''d'' ''s.YML'') = Some ?content"
    by (simp add: path_join_def suffix_to_prefix)
  have h2: "1 < length (readlines ?content)" using rl by simp
  have h3: "\<not> list_all blank (readlines ?content)"
    using rl by (simp add: blank_def is_space_def)
  have ext: "lower (file_ext ''s.YML'') = ''yml''" by code_simp
  have h4: "lower (file_ext ''s.YML'') \<in> {''yaml'', ''yml''}" by (simp add: ext)
  from multiline_yaml_expansion [of ?fs "''d''" "''s.YML''" ?content "''spec:'' @ [LF]" 2, OF h1 h2 h3 h4]
  have "process_placeholder ?fs ''d'' ''s.YML'' (''spec:'' @ [LF]) 2
       = Inr [''spec:'' @ [LF], ''  foo: bar'' @ [LF], ''  baz: 1'' @ [LF]]"
    using rl by (simp add: with_final_newline_def endswith_nl_def blank_def is_space_def
        numeral_eq_Suc)
  with h1 h2 h3 h4 show ?thesis by blast
qed

text \<open>
  Claim C10. Whatever the extension, the expansion of a referenced file of more than one
  line formats the repaired content: the lines of the file, the last one with a newline
  added when it lacks it. On the path of the extensions \<open>yaml\<close> and \<open>yml\<close> the
  lines returned after the remainder are the repaired lines (without the first when it is
  the three dashes), behind \<open>indent\<close> spaces or as bare newlines; on the other path
  they are the repaired lines likewise, after the remainder with the bar. So every content
  line returned ends with a newline.
\<close>

theorem multiline_lines_end_with_newline:
  assumes "fs (path_join root name) = Some content"
    and "1 < length (readlines content)"
    and "\<not> list_all blank (readlines content)"
  shows "process_placeholder fs root name truncated indent =
           Inr ((if lower (file_ext name) \<in> {''yaml'', ''yml''} then truncated
                 else replace_str [LF] (''|'' @ [LF]) truncated) #
                map (\<lambda>line. if blank line then [LF] else replicate indent (CHR '' '') @ line)
                  (if lower (file_ext name) \<in> {''yaml'', ''yml''}
                      \<and> hd (readlines content) = ''---'' @ [LF]
                   then tl (with_final_newline (readlines content))
                   else with_final_newline (readlines content)))
         \<and> with_final_newline (readlines content) =
             butlast (readlines content) @
               [if endswith_nl (last (readlines content)) then last (readlines content)
                else last (readlines content) @ [LF]]
         \<and> list_all endswith_nl
             (map (\<lambda>line. if blank line then [LF] else replicate indent (CHR '' '') @ line)
                (if lower (file_ext name) \<in> {''yaml'', ''yml''}
                    \<and> hd (readlines content) = ''---'' @ [LF]
                 then tl (with_final_newline (readlines content))
                 else with_final_newline (readlines content)))"
proof -
  let ?ls = "readlines content"
  have fmt: "(\<lambda>line. if blank line then [LF] else replicate indent (CHR '' '') @ line) = indent_line indent"
    by (rule ext) (simp add: indent_line_def)
  have ne: "?ls \<noteq> []" using assms(2) by auto
  have out: "process_placeholder fs root name truncated indent =
           Inr ((if lower (file_ext name) \<in> {''yaml'', ''yml''} then truncated
                 else replace_str [LF] (''|'' @ [LF]) truncated) #
                map (indent_line indent)
                  (if lower (file_ext name) \<in> {''yaml'', ''yml''} \<and> hd ?ls = ''---'' @ [LF]
                   then tl (with_final_newline ?ls) else with_final_newline ?ls))"
    using process_placeholder_multi [of fs root name content truncated indent, OF assms]
    by simp
  have rep: "with_final_newline ?ls =
      butlast ?ls @ [if endswith_nl (last ?ls) then last ?ls else last ?ls @ [LF]]"
    using ne by (simp add: with_final_newline_def)
  have nl: "list_all endswith_nl
             (map (indent_line indent)
                (if lower (file_ext name) \<in> {''yaml'', ''yml''} \<and> hd ?ls = ''---'' @ [LF]
                 then tl (with_final_newline ?ls) else with_final_newline ?ls))"
    using indented_content_nl [OF assms(2), of indent] by simp
  from out rep nl show ?thesis unfolding fmt by (intro conjI)
qed

theorem multiline_lines_end_with_newline_witness:
  "[''d/s.yaml'' \<mapsto> ''a: 1'' @ [LF] @ ''b: 2''] (path_join ''d'' ''s.yaml'')
      = Some (''a: 1'' @ [LF] @ ''b: 2'')
   \<and> 1 < length (readlines (''a: 1'' @ [LF] @ ''b: 2''))
   \<and> \<not> list_all blank (readlines (''a: 1'' @ [LF] @ ''b: 2''))
   \<and> \<not> endswith_nl (last (readlines (''a: 1'' @ [LF] @ ''b: 2'')))
   \<and> process_placeholder [''d/s.yaml'' \<mapsto> ''a: 1'' @ [LF] @ ''b: 2'']
           ''d'' ''s.yaml'' (''spec:'' @ [LF]) 2
       = Inr [''spec:'' @ [LF], ''  a: 1'' @ [LF], ''  b: 2'' @ [LF]]
   \<and> list_all endswith_nl [''  a: 1'' @ [LF], ''  b: 2'' @ [LF]]"
proof -
  let ?content = "''a: 1'' @ [LF] @ ''b: 2''"
  let ?fs = "[''d/s.yaml'' \<mapsto> ?content]"
  have rl: "readlines ?content = [''a: 1'' @ [LF], ''b: 2'']"
    by (simp add: readlines_def)
  have h1: "?fs (path_join ''d'' ''s.yaml'') = Some ?content"
    by (simp add: path_join_def suffix_to_prefix)
  have h2: "1 < length (readlines ?content)" using rl by simp
  have h3: "\<not> list_all blank (readlines ?content)"
    using rl by (simp add: blank_def is_space_def)
  have h4: "\<not> endswith_nl (last (readlines ?content))"
    using rl by (simp add: endswith_nl_def)
  have ext: "lower (file_ext ''s.yaml'') = ''yaml''" by code_simp
  note w = multiline_lines_end_with_newline
             [of ?fs "''d''" "''s.yaml''" ?content "''spec:'' @ [LF]" 2, OF h1 h2 h3]
  from w have "process_placeholder ?fs ''d'' ''s.yaml'' (''spec:'' @ [LF]) 2 =
           Inr ((if lower (file_ext ''s.yaml'') \<in> {''yaml'', ''yml''} then ''spec:'' @ [LF]
                 else replace_str [LF] (''|'' @ [LF]) (''spec:'' @ [LF])) #
                map (\<lambda>line. if blank line then [LF] else replicate 2 (CHR '' '') @ line)
                  (if lower (file_ext ''s.yaml'') \<in> {''yaml'', ''yml''}
                      \<and> hd (readlines ?content) = ''---'' @ [LF]
                   then tl (with_final_newline (readlines ?content))
                   else with_final_newline (readlines ?content)))"
    by (rule conjunct1)
  then have out: "process_placeholder ?fs ''d'' ''s.yaml'' (''spec:'' @ [LF]) 2
       = Inr [''spec:'' @ [LF], ''  a: 1'' @ [LF], ''  b: 2'' @ [LF]]"
    using rl by (simp add: ext with_final_newline_def endswith_nl_def blank_def
        is_space_def numeral_eq_Suc)
  have "list_all endswith_nl [''  a: 1'' @ [LF], ''  b: 2'' @ [LF]]"
    by (simp add: endswith_nl_def)
  with h1 h2 h3 h4 out show ?thesis by blast
qed

section \<open>The remainder of a matched line\<close>





lemma set_replace_str_delete: "set (replace_str old [] s) \<subseteq> set s"
proof (induction "length s" arbitrary: s rule: less_induct)
  case less
  show ?case
  proof (cases s)
    case Nil
    then show ?thesis by simp
  next
    case (Cons c cs)
    show ?thesis
    proof (cases "old = []")
      case True
      have "set (replace_str old [] cs) \<subseteq> set cs"
        using less [of cs] Cons by simp
      with True Cons show ?thesis by auto
    next
      case ne: False
      show ?thesis
      proof (cases "prefix old (c # cs)")
        case True
        let ?r = "drop (length old) (c # cs)"
        have "length ?r < length s" using ne Cons by simp
        then have "set (replace_str old [] ?r) \<subseteq> set ?r" by (rule less)
        moreover have "set ?r \<subseteq> set (c # cs)" by (rule set_drop_subset)
        moreover have "replace_str old [] (c # cs) = replace_str old [] ?r"
          using ne True by simp
        ultimately show ?thesis using Cons by simp
      next
        case False
        have "set (replace_str old [] cs) \<subseteq> set cs"
          using less [of cs] Cons by simp
        moreover have "replace_str old [] (c # cs) = c # replace_str old [] cs"
          using ne False by simp
        ultimately show ?thesis using Cons by auto
      qed
    qed
  qed
qed

lemma match_placeholder_SomeD:
  assumes "match_placeholder line = Some m"
  shows "\<exists>pre gs. re_search pattern line = Some (pre, gs)
           \<and> line_truncated m = replace_str (concat gs) [] line
           \<and> file_name m = (gs ! 4) @ ''.'' @ (gs ! 6)"
proof (cases "re_search pattern line")
  case None
  with assms show ?thesis by (simp add: match_placeholder_def)
next
  case (Some a)
  obtain pre gs where "a = (pre, gs)" by (cases a)
  with Some assms show ?thesis by (auto simp: match_placeholder_def Let_def)
qed

lemma no_newline_line:
  assumes "line \<in> set (readlines template)" and "\<not> endswith_nl line"
  shows "LF \<notin> set line"
proof -
  from readlines_line [OF assms(1)] have ne: "line \<noteq> []" and b: "LF \<notin> set (butlast line)"
    by simp_all
  from ne have "set line = insert (last line) (set (butlast line))" by (rule set_butlast_last)
  moreover from assms(2) ne have "last line \<noteq> LF" by (simp add: endswith_nl_def)
  ultimately show ?thesis using b by simp
qed

text \<open>
  The remainder of a line of a file holds a newline as its last character at most: the
  hypothesis on the remainder in the statement of claim C3 holds for every remainder the
  locator returns on such a line.
\<close>

lemma replace_str_nothing: "replace_str [] [] s = s"
  by (induction s) simp_all

lemma remainder_newline_at_end:
  "LF \<notin> set (butlast s) \<Longrightarrow> LF \<notin> set (butlast (replace_str old [] s))"
proof (induction "length s" arbitrary: s rule: less_induct)
  case less
  show ?case
  proof (cases s)
    case Nil
    then show ?thesis by (simp add: replace_str_nothing)
  next
    case (Cons c cs)
    show ?thesis
    proof (cases "old = []")
      case True
      with less.prems show ?thesis by (simp add: replace_str_nothing)
    next
      case ne: False
      show ?thesis
      proof (cases "prefix old (c # cs)")
        case True
        let ?r = "drop (length old) (c # cs)"
        have len: "length ?r < length s" using ne Cons by simp
        have "set (butlast ?r) \<subseteq> set (butlast (c # cs))"
          unfolding butlast_drop by (metis drop_butlast set_drop_subset)
        with less.prems Cons have "LF \<notin> set (butlast ?r)" by blast
        with len have "LF \<notin> set (butlast (replace_str old [] ?r))" by (rule less.hyps)
        moreover have "replace_str old [] (c # cs) = replace_str old [] ?r"
          using ne True by simp
        ultimately show ?thesis using Cons by simp
      next
        case False
        let ?r = "replace_str old [] cs"
        have eq: "replace_str old [] (c # cs) = c # ?r" using ne False by simp
        show ?thesis
        proof (cases "?r = []")
          case True
          with eq Cons show ?thesis by simp
        next
          case rne: False
          have "set ?r \<subseteq> set cs" by (rule set_replace_str_delete)
          with rne have csne: "cs \<noteq> []" by auto
          with less.prems Cons have c: "c \<noteq> LF" and b: "LF \<notin> set (butlast cs)" by auto
          have "length cs < length s" using Cons by simp
          from less.hyps [OF this b] have "LF \<notin> set (butlast ?r)" .
          with c rne eq Cons show ?thesis by simp
        qed
      qed
    qed
  qed
qed

lemma template_line_remainder:
  assumes "line \<in> set (readlines template)" and "match_placeholder line = Some m"
  shows "LF \<notin> set (butlast (line_truncated m))"
proof -
  from match_placeholder_SomeD [OF assms(2)] obtain ph where
    t: "line_truncated m = replace_str ph [] line" by blast
  from readlines_line [OF assms(1)] have "LF \<notin> set (butlast line)" by simp
  then show ?thesis unfolding t by (rule remainder_newline_at_end)
qed

text \<open>
  Claim C9. For a template line without a final newline in which the locator finds a
  placeholder, replacing the newline of the remainder changes nothing: when the
  referenced file has one line the expander returns the remainder alone, so the content
  of the file is not in the output, and when it has more than one line and an extension
  other than \<open>yaml\<close> and \<open>yml\<close> the first line returned is the remainder, with no
  bar added.
\<close>

theorem unterminated_line_splice_noop:
  assumes "line \<in> set (readlines template)"
    and "\<not> endswith_nl line"
    and "match_placeholder line = Some m"
    and "fs (path_join root (file_name m)) = Some content"
    and "\<not> list_all blank (readlines content)"
  shows "(length (readlines content) = 1 \<longrightarrow>
            process_placeholder fs root (file_name m) (line_truncated m) (indentation m)
              = Inr [line_truncated m])
         \<and> (1 < length (readlines content) \<and> lower (file_ext (file_name m)) \<notin> {''yaml'', ''yml''} \<longrightarrow>
            process_placeholder fs root (file_name m) (line_truncated m) (indentation m)
              = Inr (line_truncated m #
                     map (\<lambda>l. if blank l then [LF] else replicate (indentation m) (CHR '' '') @ l)
                       (with_final_newline (readlines content))))"
proof -
  have fmt: "(\<lambda>l. if blank l then [LF] else replicate (indentation m) (CHR '' '') @ l)
               = indent_line (indentation m)"
    by (rule ext) (simp add: indent_line_def)
  from match_placeholder_SomeD [OF assms(3)] obtain ph where
    t: "line_truncated m = replace_str ph [] line" by blast
  have "LF \<notin> set line" using assms(1,2) by (rule no_newline_line)
  with set_replace_str_delete [of ph line] have nl: "LF \<notin> set (line_truncated m)"
    unfolding t by blast
  have keep: "replace_str [LF] new (line_truncated m) = line_truncated m" for new
    using nl by (rule replace_char_absent)
  show ?thesis
  proof (intro conjI impI)
    assume "length (readlines content) = 1"
    then obtain l where l: "readlines content = [l]"
      by (cases "readlines content") auto
    with assms(5) have "\<not> blank l" by simp
    from process_placeholder_single
           [of fs root "file_name m" content l "line_truncated m" "indentation m", OF assms(4) l this]
    show "process_placeholder fs root (file_name m) (line_truncated m) (indentation m)
              = Inr [line_truncated m]"
      by (simp only: keep)
  next
    assume a: "1 < length (readlines content) \<and> lower (file_ext (file_name m)) \<notin> {''yaml'', ''yml''}"
    then have "1 < length (readlines content)" by simp
    from process_placeholder_multi
           [of fs root "file_name m" content "line_truncated m" "indentation m", OF assms(4) this assms(5)] a
    show "process_placeholder fs root (file_name m) (line_truncated m) (indentation m)
              = Inr (line_truncated m #
                     map (\<lambda>l. if blank l then [LF] else replicate (indentation m) (CHR '' '') @ l)
                       (with_final_newline (readlines content)))"
      unfolding fmt by (simp add: keep)
  qed
qed


theorem unterminated_line_splice_noop_witness:
  "(''k: '' @ [CHR 0x22] @ ''{{ v.txt }}'' @ [CHR 0x22])
      \<in> set (readlines (''x:'' @ [LF] @ ''k: '' @ [CHR 0x22] @ ''{{ v.txt }}'' @ [CHR 0x22]))
   \<and> \<not> endswith_nl (''k: '' @ [CHR 0x22] @ ''{{ v.txt }}'' @ [CHR 0x22])
   \<and> match_placeholder (''k: '' @ [CHR 0x22] @ ''{{ v.txt }}'' @ [CHR 0x22])
       = Some \<lparr>line_truncated = ''k: '', file_name = ''v.txt'', indentation = 2\<rparr>
   \<and> [''d/v.txt'' \<mapsto> ''hello'' @ [LF]] (path_join ''d'' ''v.txt'') = Some (''hello'' @ [LF])
   \<and> \<not> list_all blank (readlines (''hello'' @ [LF]))
   \<and> length (readlines (''hello'' @ [LF])) = 1
   \<and> process_placeholder [''d/v.txt'' \<mapsto> ''hello'' @ [LF]] ''d'' ''v.txt'' ''k: '' 2 = Inr [''k: '']"
proof -
  let ?line = "''k: '' @ [CHR 0x22] @ ''{{ v.txt }}'' @ [CHR 0x22]"
  let ?template = "''x:'' @ [LF] @ ?line"
  let ?m = "\<lparr>line_truncated = ''k: '', file_name = ''v.txt'', indentation = 2\<rparr>"
  let ?content = "''hello'' @ [LF]"
  let ?fs = "[''d/v.txt'' \<mapsto> ?content]"
  have h1: "?line \<in> set (readlines ?template)" by (simp add: readlines_def)
  have h2: "\<not> endswith_nl ?line" by (simp add: endswith_nl_def)
  have h3: "match_placeholder ?line = Some ?m" by code_simp
  have h4: "?fs (path_join ''d'' (file_name ?m)) = Some ?content"
    by (simp add: path_join_def suffix_to_prefix)
  have rl: "readlines ?content = [?content]" by (simp add: readlines_def)
  have h5: "\<not> list_all blank (readlines ?content)"
    using rl by (simp add: blank_def is_space_def)
  have h6: "length (readlines ?content) = 1" using rl by simp
  from unterminated_line_splice_noop [of ?line ?template ?m ?fs "''d''" ?content, OF h1 h2 h3 h4 h5]
  have "length (readlines ?content) = 1 \<longrightarrow>
          process_placeholder ?fs ''d'' (file_name ?m) (line_truncated ?m) (indentation ?m)
            = Inr [line_truncated ?m]"
    by (rule conjunct1)
  with h6 have "process_placeholder ?fs ''d'' ''v.txt'' ''k: '' 2 = Inr [''k: '']" by simp
  moreover from h4 have "?fs (path_join ''d'' ''v.txt'') = Some ?content" by simp
  ultimately show ?thesis using h1 h2 h3 h5 h6 by blast
qed






text \<open>
  Claim C1 asks that, for a referenced file of one line, the content takes the place of
  the placeholder and the text after it stays after it. The expander puts the content
  before the newline of the remainder instead, that is at the end of the line: with the
  comment \<^verbatim>\<open># c\<close> after the placeholder and the content \<^verbatim>\<open>hello\<close>, the line
  returned ends with \<^verbatim>\<open># chello\<close>, where the docstring of
  \<^verbatim>\<open>process_placeholder\<close> says the content is inserted in place of the placeholder.
\<close>

theorem single_line_content_lands_at_line_end:
  "match_placeholder (''key: '' @ [CHR 0x22] @ ''{{ v.txt }}'' @ [CHR 0x22] @ '' # c'' @ [LF])
     = Some \<lparr>line_truncated = ''key:  # c'' @ [LF], file_name = ''v.txt'', indentation = 2\<rparr>
   \<and> process_placeholder [''d/v.txt'' \<mapsto> ''hello'' @ [LF]] ''d'' ''v.txt'' (''key:  # c'' @ [LF]) 2
       = Inr [''key:  # chello'' @ [LF]]
   \<and> generate_processed_content [''d/v.txt'' \<mapsto> ''hello'' @ [LF]] ''d''
         [''key: '' @ [CHR 0x22] @ ''{{ v.txt }}'' @ [CHR 0x22] @ '' # c'' @ [LF]]
       = Inr [''key:  # chello'' @ [LF]]"
proof -
  have m: "match_placeholder (''key: '' @ [CHR 0x22] @ ''{{ v.txt }}'' @ [CHR 0x22] @ '' # c'' @ [LF])
     = Some \<lparr>line_truncated = ''key:  # c'' @ [LF], file_name = ''v.txt'', indentation = 2\<rparr>"
    by code_simp
  have rl: "readlines (''hello'' @ [LF]) = [''hello'' @ [LF]]" by (simp add: readlines_def)
  have p: "process_placeholder [''d/v.txt'' \<mapsto> ''hello'' @ [LF]] ''d'' ''v.txt'' (''key:  # c'' @ [LF]) 2
       = Inr [''key:  # chello'' @ [LF]]"
    using rl
    by (simp add: process_placeholder_def read_file_content_def path_join_def suffix_to_prefix
        Let_def strip_def lstrip_def rstrip_def is_space_def)
  have "generate_processed_content [''d/v.txt'' \<mapsto> ''hello'' @ [LF]] ''d''
         [''key: '' @ [CHR 0x22] @ ''{{ v.txt }}'' @ [CHR 0x22] @ '' # c'' @ [LF]]
       = Inr [''key:  # chello'' @ [LF]]"
    using m p by (simp add: generate_processed_content_def)
  with m p show ?thesis by blast
qed

end
